theory Spec2Isabelle
  imports Main "HOL-Library.Word" "HOL-Library.Multiset"
begin

unbundle bit_operations_syntax

section \<open>Feedback marks (class Marks)\<close>

text \<open>
  \<^verbatim>\<open>Marks\<close> holds one \<^verbatim>\<open>uint32_t\<close>: five groups of two bits. The source
  comments the four values of a group: 0 undefined, 1 the letter does not exist in the
  solution, 2 the letter exists but is in the wrong spot, 3 the letter is in the right spot.
\<close>

type_synonym Marks = "32 word"

definition Marks_init :: Marks where
  "Marks_init = 0"

text \<open>\<^verbatim>\<open>marks_ &= ~((uint32_t)3 << (2*i)); marks_ ^= mask << (2*i);\<close>\<close>

definition Marks_set :: "Marks \<Rightarrow> nat \<Rightarrow> 32 word \<Rightarrow> Marks" where
  "Marks_set m i msk = (m AND NOT (push_bit (2 * i) 3)) XOR push_bit (2 * i) msk"

definition set_correct :: "Marks \<Rightarrow> nat \<Rightarrow> Marks" where
  "set_correct m i = Marks_set m i 3"

definition set_wrong_spot :: "Marks \<Rightarrow> nat \<Rightarrow> Marks" where
  "set_wrong_spot m i = Marks_set m i 2"

definition set_none :: "Marks \<Rightarrow> nat \<Rightarrow> Marks" where
  "set_none m i = Marks_set m i 1"

text \<open>
  The class has no reader for a single group; \<open>slot\<close> reads group \<open>i\<close> back and names
  its value after the comment in the source.
\<close>

datatype slot_state = Unset | Absent | WrongPosition | Correct

definition slot_bits :: "Marks \<Rightarrow> nat \<Rightarrow> 32 word" where
  "slot_bits m i = drop_bit (2 * i) m AND 3"

definition slot :: "Marks \<Rightarrow> nat \<Rightarrow> slot_state" where
  "slot m i =
     (let b = slot_bits m i
      in if b = 0 then Unset else if b = 1 then Absent
         else if b = 2 then WrongPosition else Correct)"

section \<open>Words and the feedback computation (Word::compute_marks)\<close>

text \<open>
  A \<^verbatim>\<open>Word\<close> is a \<^verbatim>\<open>std::array<char, 5>\<close>: a list of characters whose length is 5.
  The two \<^verbatim>\<open>std::bitset<5>\<close> are lists of five booleans, all false at the start.
\<close>

type_synonym Word = "char list"

record cm_state =
  marks :: Marks
  used_target :: "bool list"
  used_word :: "bool list"

definition cm_init :: cm_state where
  "cm_init = \<lparr>marks = Marks_init, used_target = replicate 5 False,
     used_word = replicate 5 False\<rparr>"

text \<open>First loop: equal letters at equal positions.\<close>

definition pass1_step :: "Word \<Rightarrow> Word \<Rightarrow> nat \<Rightarrow> cm_state \<Rightarrow> cm_state" where
  "pass1_step w t i st =
     (if w ! i = t ! i
      then st\<lparr>marks := set_correct (marks st) i,
              used_target := (used_target st)[i := True],
              used_word := (used_word st)[i := True]\<rparr>
      else st)"

definition pass1 :: "Word \<Rightarrow> Word \<Rightarrow> cm_state \<Rightarrow> cm_state" where
  "pass1 w t st = fold (pass1_step w t) [0..<5] st"

text \<open>
  Second loop. The inner loop over \<open>j\<close> has no \<^verbatim>\<open>break\<close>: it runs over all five
  target positions, and its body sets two bits and leaves \<open>marks\<close> alone.
\<close>

definition pass2_inner_step :: "Word \<Rightarrow> Word \<Rightarrow> nat \<Rightarrow> nat \<Rightarrow> cm_state \<Rightarrow> cm_state" where
  "pass2_inner_step w t i j st =
     (if w ! i = t ! j \<and> \<not> used_target st ! j
      then st\<lparr>used_word := (used_word st)[i := True],
              used_target := (used_target st)[j := True]\<rparr>
      else st)"

definition pass2_inner :: "Word \<Rightarrow> Word \<Rightarrow> nat \<Rightarrow> cm_state \<Rightarrow> cm_state" where
  "pass2_inner w t i st = fold (pass2_inner_step w t i) [0..<5] st"

definition pass2_step :: "Word \<Rightarrow> Word \<Rightarrow> nat \<Rightarrow> cm_state \<Rightarrow> cm_state" where
  "pass2_step w t i st = (if \<not> used_word st ! i then pass2_inner w t i st else st)"

definition pass2 :: "Word \<Rightarrow> Word \<Rightarrow> cm_state \<Rightarrow> cm_state" where
  "pass2 w t st = fold (pass2_step w t) [0..<5] st"

text \<open>Third loop: every guess position still unused is marked 1.\<close>

definition pass3_step :: "nat \<Rightarrow> cm_state \<Rightarrow> cm_state" where
  "pass3_step i st =
     (if \<not> used_word st ! i then st\<lparr>marks := set_none (marks st) i\<rparr> else st)"

definition pass3 :: "cm_state \<Rightarrow> cm_state" where
  "pass3 st = fold pass3_step [0..<5] st"

definition compute_marks :: "Word \<Rightarrow> Word \<Rightarrow> Marks" where
  "compute_marks w t = marks (pass3 (pass2 w t (pass1 w t cm_init)))"

section \<open>The word-list parser (parse_words)\<close>

text \<open>
  \<^verbatim>\<open>size_t\<close> is 64 bits wide; \<open>none\<close> is \<^verbatim>\<open>~(size_t)0\<close>. The loop variable
  runs below the size of the input. A word is copied from the five characters after
  the remembered quote. The last branch of the source is empty: it changes nothing,
  \<open>last_quote\<close> included.
\<close>

definition none :: "64 word" where
  "none = NOT 0"

record pw_state =
  last_quote :: "64 word"
  words :: "Word list"

definition parse_step :: "char list \<Rightarrow> nat \<Rightarrow> pw_state \<Rightarrow> pw_state" where
  "parse_step file_contents i st =
     (if file_contents ! i = CHR 0x22
      then if last_quote st = none
           then st\<lparr>last_quote := of_nat i\<rparr>
           else if of_nat i - last_quote st = 6
           then st\<lparr>words := words st @ [take 5 (drop (unat (last_quote st + 1)) file_contents)],
                   last_quote := none\<rparr>
           else st
      else st)"

definition parse_words :: "char list \<Rightarrow> Word list" where
  "parse_words file_contents =
     words (fold (parse_step file_contents) [0..<length file_contents]
              \<lparr>last_quote = none, words = []\<rparr>)"

section \<open>The score of one guess (the task of compute_sum_of_squares_ranks)\<close>

text \<open>
  \<^verbatim>\<open>std::map<Marks, int64_t>\<close> keeps its entries in increasing key order and is
  read back in that order: an association list with strictly increasing keys.
  \<^verbatim>\<open>marks_count[k]++\<close> adds 1 to the entry of \<open>k\<close>, which is created with the
  value 0 when absent. The keys compare as unsigned 32-bit numbers, the counts are
  \<^verbatim>\<open>int64_t\<close>: 64-bit words read with \<open>sint\<close>.
\<close>

type_synonym marks_map = "(Marks \<times> 64 word) list"

fun map_incr :: "Marks \<Rightarrow> marks_map \<Rightarrow> marks_map" where
  "map_incr k [] = [(k, 1)]"
| "map_incr k ((k', c) # m) =
     (if k = k' then (k', c + 1) # m
      else if k < k' then (k, 1) # (k', c) # m
      else (k', c) # map_incr k m)"

definition marks_count :: "Word \<Rightarrow> Word list \<Rightarrow> marks_map" where
  "marks_count w targets = fold (\<lambda>target m. map_incr (compute_marks w target) m) targets []"

definition sum_of_squares :: "marks_map \<Rightarrow> 64 word" where
  "sum_of_squares m = fold (\<lambda>(mk, count) s. s + count * count) m 0"

definition task_score :: "Word \<Rightarrow> Word list \<Rightarrow> 64 word" where
  "task_score w targets = sum_of_squares (marks_count w targets)"

text \<open>
  The map that holds, for each distinct element of a list of marks, the number of its
  occurrences, in increasing key order. It is what \<open>marks_count\<close> computes.
\<close>

definition count_table :: "Marks list \<Rightarrow> marks_map" where
  "count_table cs = map (\<lambda>x. (x, of_nat (count_list cs x))) (sorted_list_of_set (set cs))"

section \<open>The thread pool and compute_sum_of_squares_ranks\<close>

text \<open>
  The constructor of \<^verbatim>\<open>ThreadPool\<close> starts every thread on \<^verbatim>\<open>run\<close> at once.
  A thread is in one of three places: \<open>Polling\<close>, about to test the queue under the
  mutex; \<open>Running i\<close>, executing the task it popped (the task that captured index
  \<open>i\<close>) with the mutex released; \<open>Returned\<close>, having left \<^verbatim>\<open>run\<close> because it found
  the queue empty. The queue holds the captured index of each task. The main thread
  submits the tasks for \<open>i = 0, 1, ...\<close> in order and then joins every thread.

  A schedule is the order in which the threads take their steps: \<open>Submit\<close> is the next
  \<^verbatim>\<open>pool.submit\<close> of the main thread, \<open>Step k\<close> the next step of thread \<open>k\<close>. Each
  step is atomic in the source: the queue is only touched under the mutex, and a task
  writes one element of \<open>result\<close> that nothing else reads or writes before the join.
  A step that the thread cannot take gives \<open>None\<close>.
\<close>

datatype worker = Polling | Running nat | Returned

datatype event = Submit | Step nat

record pool_state =
  queue :: "nat list"
  threads :: "worker list"
  submitted :: nat
  result :: "64 word list"

definition pool_init :: "nat \<Rightarrow> Word list \<Rightarrow> pool_state" where
  "pool_init nthreads ws =
     \<lparr>queue = [], threads = replicate (max nthreads 1) Polling, submitted = 0,
      result = replicate (length ws) 0\<rparr>"

fun pool_step :: "Word list \<Rightarrow> Word list \<Rightarrow> event \<Rightarrow> pool_state \<Rightarrow> pool_state option" where
  "pool_step ws targets Submit s =
     (if submitted s < length ws
      then Some (s\<lparr>queue := queue s @ [submitted s], submitted := Suc (submitted s)\<rparr>)
      else None)"
| "pool_step ws targets (Step k) s =
     (if k < length (threads s)
      then (case threads s ! k of
              Polling \<Rightarrow>
                (case queue s of
                   [] \<Rightarrow> Some (s\<lparr>threads := (threads s)[k := Returned]\<rparr>)
                 | i # q \<Rightarrow> Some (s\<lparr>queue := q, threads := (threads s)[k := Running i]\<rparr>))
            | Running i \<Rightarrow>
                Some (s\<lparr>result := (result s)[i := task_score (ws ! i) targets],
                        threads := (threads s)[k := Polling]\<rparr>)
            | Returned \<Rightarrow> None)
      else None)"

fun pool_run :: "Word list \<Rightarrow> Word list \<Rightarrow> event list \<Rightarrow> pool_state \<Rightarrow> pool_state option" where
  "pool_run ws targets [] s = Some s"
| "pool_run ws targets (e # es) s =
     (case pool_step ws targets e s of
        None \<Rightarrow> None
      | Some s' \<Rightarrow> pool_run ws targets es s')"

text \<open>
  \<^verbatim>\<open>pool.wait()\<close> comes after the submit loop and returns when every thread has left
  \<^verbatim>\<open>run\<close>; the function then returns \<open>result\<close>.
\<close>

definition joined :: "Word list \<Rightarrow> pool_state \<Rightarrow> bool" where
  "joined ws s = (submitted s = length ws \<and> list_all (\<lambda>t. t = Returned) (threads s))"

definition compute_sum_of_squares_ranks ::
  "nat \<Rightarrow> event list \<Rightarrow> Word list \<Rightarrow> Word list \<Rightarrow> 64 word list option" where
  "compute_sum_of_squares_ranks nthreads schedule ws targets =
     (case pool_run ws targets schedule (pool_init nthreads ws) of
        None \<Rightarrow> None
      | Some s \<Rightarrow> if joined ws s then Some (result s) else None)"

section \<open>Top-k selection (print_best_sum_of_squares_ranks)\<close>

text \<open>
  \<^verbatim>\<open>std::ranges::nth_element\<close> and \<^verbatim>\<open>std::ranges::sort\<close> belong to the C++ standard
  library, not to this repository, and the standard leaves the order of equivalent
  elements open. The model takes the two algorithms as parameters. The contracts below
  say what the standard guarantees for a comparator that is a strict weak ordering:
  the result is a permutation of the range; after \<^verbatim>\<open>nth_element\<close> no element from
  position \<open>pos\<close> on is less than an element before \<open>pos\<close>; after \<^verbatim>\<open>sort\<close> no
  element is less than an earlier one. \<open>pos\<close> may be the end of the range.
\<close>

definition strict_weak_order :: "(nat \<Rightarrow> nat \<Rightarrow> bool) \<Rightarrow> bool" where
  "strict_weak_order cmp \<longleftrightarrow>
     (\<forall>a. \<not> cmp a a) \<and>
     (\<forall>a b c. cmp a b \<longrightarrow> cmp b c \<longrightarrow> cmp a c) \<and>
     (\<forall>a b c. \<not> cmp a b \<longrightarrow> \<not> cmp b a \<longrightarrow> \<not> cmp b c \<longrightarrow> \<not> cmp c b
        \<longrightarrow> \<not> cmp a c \<and> \<not> cmp c a)"

type_synonym nth_element_fn = "(nat \<Rightarrow> nat \<Rightarrow> bool) \<Rightarrow> nat list \<Rightarrow> nat \<Rightarrow> nat list"
type_synonym sort_fn = "(nat \<Rightarrow> nat \<Rightarrow> bool) \<Rightarrow> nat list \<Rightarrow> nat list"

definition nth_element_contract :: "nth_element_fn \<Rightarrow> bool" where
  "nth_element_contract nth_element \<longleftrightarrow>
     (\<forall>cmp xs pos. strict_weak_order cmp \<longrightarrow> pos \<le> length xs \<longrightarrow>
        mset (nth_element cmp xs pos) = mset xs \<and>
        (\<forall>i j. i < pos \<longrightarrow> pos \<le> j \<longrightarrow> j < length xs \<longrightarrow>
           \<not> cmp (nth_element cmp xs pos ! j) (nth_element cmp xs pos ! i)))"

definition sort_contract :: "sort_fn \<Rightarrow> bool" where
  "sort_contract sort_alg \<longleftrightarrow>
     (\<forall>cmp xs. strict_weak_order cmp \<longrightarrow>
        mset (sort_alg cmp xs) = mset xs \<and>
        sorted_wrt (\<lambda>a b. \<not> cmp b a) (sort_alg cmp xs))"

text \<open>
  The lambda \<^verbatim>\<open>compare\<close> compares two \<^verbatim>\<open>int64_t\<close> scores, read at the two indices.
\<close>

definition compare :: "64 word list \<Rightarrow> nat \<Rightarrow> nat \<Rightarrow> bool" where
  "compare ranks i j = (sint (ranks ! i) < sint (ranks ! j))"

text \<open>
  The function up to the sort of \<^verbatim>\<open>best_indices\<close>. \<^verbatim>\<open>show_count\<close> is a
  \<^verbatim>\<open>size_t\<close>; \<^verbatim>\<open>std::min(show_count, n)\<close> is the minimum of two unsigned numbers.
  C++ checks no index, so the model does: \<open>None\<close> stands for an access outside an
  array. The comparator reads \<^verbatim>\<open>ranks[i]\<close> for elements \<open>i\<close> of the index range;
  \<^verbatim>\<open>indices.begin() + show_count\<close> and \<^verbatim>\<open>subspan(0, show_count)\<close> need
  \<^verbatim>\<open>show_count\<close> to be at most the size of the range.
\<close>

definition best_indices :: "nth_element_fn \<Rightarrow> sort_fn \<Rightarrow> Word list \<Rightarrow> 64 word list \<Rightarrow> 64 word \<Rightarrow> nat list option" where
  "best_indices nth_element sort_alg ws ranks show_count =
     (let n = length ws;
          show_count = min (unat show_count) n;
          indices = [0..<n]
      in if \<not> list_all (\<lambda>i. i < length ranks) indices then None
         else if \<not> show_count \<le> length indices then None
         else
           let indices = nth_element (compare ranks) indices show_count
           in if \<not> show_count \<le> length indices then None
              else Some (sort_alg (compare ranks) (take show_count indices)))"

text \<open>
  The output loop reads \<^verbatim>\<open>words[idx]\<close> and \<^verbatim>\<open>ranks[idx]\<close> and prints one line
  for each index; the model returns the lines as pairs.
\<close>

definition print_best_sum_of_squares_ranks ::
  "nth_element_fn \<Rightarrow> sort_fn \<Rightarrow> Word list \<Rightarrow> 64 word list \<Rightarrow> 64 word \<Rightarrow> (Word \<times> 64 word) list option" where
  "print_best_sum_of_squares_ranks nth_element sort_alg ws ranks show_count =
     (case best_indices nth_element sort_alg ws ranks show_count of
        None \<Rightarrow> None
      | Some best \<Rightarrow>
          if list_all (\<lambda>idx. idx < length ws \<and> idx < length ranks) best
          then Some (map (\<lambda>idx. (ws ! idx, ranks ! idx)) best)
          else None)"

text \<open>
  One pair of algorithms that meets the two contracts: insertion sort by the comparator,
  for \<^verbatim>\<open>sort\<close> and (sorting the whole range) for \<^verbatim>\<open>nth_element\<close>. The theorems
  hold for every pair that meets the contracts; this one runs the model on examples.
\<close>

fun insert_by :: "(nat \<Rightarrow> nat \<Rightarrow> bool) \<Rightarrow> nat \<Rightarrow> nat list \<Rightarrow> nat list" where
  "insert_by cmp x [] = [x]"
| "insert_by cmp x (y # ys) = (if cmp x y then x # y # ys else y # insert_by cmp x ys)"

fun insertion_sort :: sort_fn where
  "insertion_sort cmp [] = []"
| "insertion_sort cmp (x # xs) = insert_by cmp x (insertion_sort cmp xs)"

definition sorting_nth_element :: nth_element_fn where
  "sorting_nth_element cmp xs pos = insertion_sort cmp xs"

section \<open>Theorems about the feedback computation\<close>

lemma upt_5: "[0..<5] = [0, 1, 2, 3, 4]"
  by code_simp

lemma length_5_cases:
  assumes "length (w :: 'a list) = 5"
  obtains a b c d e where "w = [a, b, c, d, e]"
  using assms by (auto simp: length_Suc_conv eval_nat_numeral)

lemma compute_marks_same: "length w = 5 \<Longrightarrow> compute_marks w w = 1023"
proof -
  assume "length w = 5"
  then obtain a b c d e where w: "w = [a, b, c, d, e]"
    by (rule length_5_cases)
  show ?thesis
    unfolding w
    by (simp add: compute_marks_def pass3_def pass2_def pass1_def upt_5 pass1_step_def
        pass2_step_def pass3_step_def cm_init_def set_correct_def Marks_set_def
        Marks_init_def eval_nat_numeral)
qed

lemma slot_1023: "i < 5 \<Longrightarrow> slot 1023 i = Correct"
proof -
  assume "i < 5"
  then have "i = 0 \<or> i = 1 \<or> i = 2 \<or> i = 3 \<or> i = 4"
    by arith
  then show ?thesis
    by (auto simp: slot_def slot_bits_def Let_def)
qed

text \<open>
  C1. Pass 2 is claimed to match an unconsumed guess position to the first unconsumed
  target position holding the same letter and to consume exactly that one. The inner
  loop does not stop at the first match. For the guess "llama" against the target
  "hello" no target position is consumed by pass 1; the scan for guess position 0
  then consumes both target positions 2 and 3, and guess position 1, the second "l",
  finds nothing left and is marked as not in the solution.
\<close>

theorem pass2_inner_consumes_every_match:
  "used_target (pass1 ''llama'' ''hello'' cm_init) = [False, False, False, False, False]
   \<and> used_target (pass2_inner ''llama'' ''hello'' 0 (pass1 ''llama'' ''hello'' cm_init))
       = [False, False, True, True, False]
   \<and> slot (compute_marks ''llama'' ''hello'') 1 = Absent"
  by code_simp

text \<open>
  C2. The returned marks are claimed to have no undefined group, a position matched in
  pass 2 being marked as in the wrong spot. Pass 2 never writes to the marks: for
  the guess "aabbb" against the target "ababa" the groups of positions 1 and 2, both
  matched in pass 2, keep the value 0.
\<close>

theorem compute_marks_leaves_unset:
  "map (slot (compute_marks ''aabbb'' ''ababa'')) [0, 1, 2, 3, 4]
     = [Correct, Unset, Unset, Correct, Absent]"
  by code_simp

text \<open>
  C7, as stated: all five groups of the marks of "abcde" against "edcba" are
  wrong-spot. This fails: the two words agree at position 2.
\<close>

theorem compute_abcde_edcba_counterexample:
  "map (slot (compute_marks ''abcde'' ''edcba'')) [0, 1, 2, 3, 4]
     \<noteq> [WrongPosition, WrongPosition, WrongPosition, WrongPosition, WrongPosition]"
  by code_simp

text \<open>
  C7, amended: for the guess "abcde" against the target "edcba" the group of position 2
  is right-spot, and none of the positions 0, 1, 3, 4 is right-spot or marked as not in
  the solution.
\<close>

theorem compute_abcde_edcba:
  "slot (compute_marks ''abcde'' ''edcba'') 2 = Correct
   \<and> slot (compute_marks ''abcde'' ''edcba'') 0 \<noteq> Correct
   \<and> slot (compute_marks ''abcde'' ''edcba'') 0 \<noteq> Absent
   \<and> slot (compute_marks ''abcde'' ''edcba'') 1 \<noteq> Correct
   \<and> slot (compute_marks ''abcde'' ''edcba'') 1 \<noteq> Absent
   \<and> slot (compute_marks ''abcde'' ''edcba'') 3 \<noteq> Correct
   \<and> slot (compute_marks ''abcde'' ''edcba'') 3 \<noteq> Absent
   \<and> slot (compute_marks ''abcde'' ''edcba'') 4 \<noteq> Correct
   \<and> slot (compute_marks ''abcde'' ''edcba'') 4 \<noteq> Absent"
  by code_simp

text \<open>
  C8. For every word \<open>w\<close> of five letters, the marks of \<open>w\<close> against itself have the
  right-spot value in all five groups.
\<close>

theorem compute_marks_self:
  "length w = 5 \<Longrightarrow> (\<forall>i<5. slot (compute_marks w w) i = Correct)"
  by (simp add: compute_marks_same slot_1023)

theorem compute_marks_self_witness:
  "length ''mango'' = 5 \<and> slot (compute_marks ''mango'' ''mango'') 3 = Correct"
  using compute_marks_self [of "''mango''"] by simp

text \<open>
  C9. The parser is claimed to skip a quoted span whose length is not 5 without any
  effect on the words after it. After such a span the remembered quote stays where it
  was, so the word "hello" that follows the span "ab" is not returned.
\<close>

theorem parse_words_stuck_after_bad_span:
  \<open>parse_words ''"ab" "hello"'' = [] \<and> parse_words ''"hello"'' = [''hello'']\<close>
  by code_simp

section \<open>Theorems about the score of one guess\<close>

lemma compute_marks_hello_world: "compute_marks ''hello'' ''world'' = 213"
  by code_simp

lemma map_incr_present:
  "sorted_wrt (<) ks \<Longrightarrow> k \<in> set ks \<Longrightarrow>
   map_incr k (map (\<lambda>x. (x, f x)) ks) = map (\<lambda>x. (x, if x = k then f x + 1 else f x)) ks"
proof (induction ks)
  case Nil
  then show ?case by simp
next
  case (Cons y ys)
  show ?case
  proof (cases "k = y")
    case True
    with Cons.prems have "\<forall>x\<in>set ys. x \<noteq> k" by auto
    with True show ?thesis by simp
  next
    case False
    with Cons.prems have "k \<in> set ys" "y < k" by auto
    with False Cons show ?thesis by auto
  qed
qed

lemma map_incr_absent:
  "sorted_wrt (<) ks \<Longrightarrow> k \<notin> set ks \<Longrightarrow>
   map_incr k (map (\<lambda>x. (x, f x)) ks) = map (\<lambda>x. (x, if x = k then 1 else f x)) (insort k ks)"
proof (induction ks)
  case Nil
  then show ?case by simp
next
  case (Cons y ys)
  then have ne: "k \<noteq> y" and nin: "\<forall>x\<in>set ys. x \<noteq> k" by auto
  show ?case
  proof (cases "k < y")
    case True
    with ne nin Cons.prems show ?thesis by auto
  next
    case False
    with ne have "y < k" by simp
    with False ne Cons show ?thesis by auto
  qed
qed

lemma map_incr_count_table: "map_incr k (count_table cs) = count_table (cs @ [k])"
proof (cases "k \<in> set cs")
  case True
  have s: "sorted_wrt (<) (sorted_list_of_set (set cs))"
    by (simp add: strict_sorted_iff)
  from True have eq: "insert k (set cs) = set cs" by auto
  show ?thesis
    unfolding count_table_def
    using map_incr_present [OF s, of k "\<lambda>x. of_nat (count_list cs x)"] True
    by (simp add: eq)
next
  case False
  have s: "sorted_wrt (<) (sorted_list_of_set (set cs))"
    by (simp add: strict_sorted_iff)
  from False have c0: "count_list cs k = 0" by (simp add: count_list_0_iff)
  show ?thesis
    unfolding count_table_def
    using map_incr_absent [OF s, of k "\<lambda>x. of_nat (count_list cs x)"] False
    by (simp add: c0)
qed

lemma marks_count_table: "marks_count w targets = count_table (map (compute_marks w) targets)"
proof (induction targets rule: rev_induct)
  case Nil
  show ?case by (simp add: marks_count_def count_table_def)
next
  case (snoc t ts)
  then show ?case by (simp add: marks_count_def map_incr_count_table)
qed

lemma fold_squares: "fold (\<lambda>(mk, count) s. s + count * count) m a = a + sum_list (map (\<lambda>(mk, c). c * c) m)"
  for a :: "64 word"
  by (induction m arbitrary: a) (auto simp: add.assoc)

lemma sum_of_squares_count_table:
  "sum_of_squares (count_table cs) = (\<Sum>x\<in>set cs. (of_nat (count_list cs x))\<^sup>2)"
proof -
  have "sum_of_squares (count_table cs) = sum_list (map (\<lambda>x. (of_nat (count_list cs x))\<^sup>2) (sorted_list_of_set (set cs)))"
    by (simp add: sum_of_squares_def fold_squares count_table_def comp_def power2_eq_square)
  also have "\<dots> = (\<Sum>x\<in>set (sorted_list_of_set (set cs)). (of_nat (count_list cs x))\<^sup>2)"
    by (rule sum.distinct_set_conv_list [symmetric]) simp
  finally show ?thesis by simp
qed

lemma sum_squares_le_square_sum:
  "finite S \<Longrightarrow> (\<Sum>x\<in>S. (f x)\<^sup>2) \<le> (\<Sum>x\<in>S. f x)\<^sup>2" for f :: "'a \<Rightarrow> nat"
proof (induction S rule: finite_induct)
  case empty
  show ?case by simp
next
  case (insert a S)
  have "(f a)\<^sup>2 + (\<Sum>x\<in>S. f x)\<^sup>2 \<le> (f a + (\<Sum>x\<in>S. f x))\<^sup>2"
    by (simp add: power2_sum)
  with insert show ?case by simp
qed

lemma sum_count_list_set: "(\<Sum>x\<in>set cs. count_list cs x) = length cs"
  by (rule sum_count_set) simp_all

lemma sint_of_nat_64: "n < 2 ^ 63 \<Longrightarrow> sint (of_nat n :: 64 word) = int n"
proof -
  assume "n < 2 ^ 63"
  then have "int n < 2 ^ 63" by (metis of_nat_less_numeral_power_cancel_iff)
  moreover have "- (2 ^ 63) \<le> int n" by simp
  ultimately have "signed_take_bit 63 (int n) = int n"
    by (rule signed_take_bit_int_eq_self [rotated])
  then show ?thesis
    by (simp add: signed_of_nat)
qed

lemma count_list_map_filter:
  "count_list (map f xs) y = length (filter (\<lambda>x. f x = y) xs)"
  by (induction xs) auto

lemma in_set_tabulate: "(a, b) \<in> set (map (\<lambda>x. (x, f x)) xs) \<Longrightarrow> b = f a"
  by auto

lemma count_list_le_length: "count_list xs y \<le> length xs"
  by (induction xs) auto

text \<open>
  C5. The map built for a guess is a complete partition of the targets: its counts add
  up to the number of targets, no key occurs twice, and the count of each key is the
  number of targets whose marks are that key. The counts are read as \<^verbatim>\<open>int64_t\<close>;
  a \<^verbatim>\<open>std::vector\<close> holds fewer than \<open>2 ^ 63\<close> elements.
\<close>

theorem marks_count_partition:
  assumes "length targets < 2 ^ 63"
  shows "(\<Sum>(mk, c)\<leftarrow>marks_count w targets. sint c) = int (length targets)
    \<and> distinct (map fst (marks_count w targets))
    \<and> (\<forall>(mk, c)\<in>set (marks_count w targets).
          sint c = int (length (filter (\<lambda>t. compute_marks w t = mk) targets)))"
proof -
  let ?cs = "map (compute_marks w) targets"
  have small: "count_list ?cs x < 2 ^ 63" for x
    using count_list_le_length [of ?cs x] assms by simp
  have conv: "sint (of_nat (count_list ?cs x) :: 64 word) = int (count_list ?cs x)" for x
    by (rule sint_of_nat_64 [OF small])
  have "(\<Sum>(mk, c)\<leftarrow>marks_count w targets. sint c)
      = (\<Sum>x\<leftarrow>sorted_list_of_set (set ?cs). int (count_list ?cs x))"
    by (simp add: marks_count_table count_table_def comp_def conv del: set_map)
  also have "\<dots> = (\<Sum>x\<in>set (sorted_list_of_set (set ?cs)). int (count_list ?cs x))"
    by (rule sum.distinct_set_conv_list [symmetric]) simp
  also have "\<dots> = int (\<Sum>x\<in>set ?cs. count_list ?cs x)"
    by simp
  also have "\<dots> = int (length targets)"
    by (simp only: sum_count_list_set length_map)
  finally have total: "(\<Sum>(mk, c)\<leftarrow>marks_count w targets. sint c) = int (length targets)" .
  have keys: "distinct (map fst (marks_count w targets))"
    by (simp add: marks_count_table count_table_def comp_def)
  have each: "\<forall>(mk, c)\<in>set (marks_count w targets).
          sint c = int (length (filter (\<lambda>t. compute_marks w t = mk) targets))"
  proof clarify
    fix mk c
    assume "(mk, c) \<in> set (marks_count w targets)"
    then have "c = of_nat (count_list ?cs mk)"
      unfolding marks_count_table count_table_def by (rule in_set_tabulate)
    then have "sint c = int (count_list ?cs mk)"
      by (simp only: conv)
    then show "sint c = int (length (filter (\<lambda>t. compute_marks w t = mk) targets))"
      by (simp only: count_list_map_filter)
  qed
  from total keys each show ?thesis by simp
qed

text \<open>
  C4. The score of a guess is the sum, over the distinct marks, of the square of the
  number of targets with these marks: as an equation of 64-bit arithmetic for every
  target list, and as an equation of integers when the square of the number of targets
  is below \<open>2 ^ 63\<close>. For the empty target list the score is 0.
\<close>

theorem task_score_sum_of_squares:
  "task_score w targets
     = (\<Sum>mk\<in>set (map (compute_marks w) targets).
          (of_nat (count_list (map (compute_marks w) targets) mk))\<^sup>2)
   \<and> ((length targets)\<^sup>2 < 2 ^ 63 \<longrightarrow>
        sint (task_score w targets)
          = (\<Sum>mk\<in>set (map (compute_marks w) targets).
               (int (count_list (map (compute_marks w) targets) mk))\<^sup>2))
   \<and> task_score w [] = 0"
proof -
  let ?cs = "map (compute_marks w) targets"
  let ?n = "\<Sum>mk\<in>set ?cs. (count_list ?cs mk)\<^sup>2"
  have word: "task_score w targets = (\<Sum>mk\<in>set ?cs. (of_nat (count_list ?cs mk))\<^sup>2)"
    by (simp only: task_score_def marks_count_table sum_of_squares_count_table)
  have as_nat: "task_score w targets = of_nat ?n"
    by (simp add: word)
  have exact: "sint (task_score w targets) = (\<Sum>mk\<in>set ?cs. (int (count_list ?cs mk))\<^sup>2)"
    if "(length targets)\<^sup>2 < 2 ^ 63"
  proof -
    have "?n \<le> (\<Sum>mk\<in>set ?cs. count_list ?cs mk)\<^sup>2"
      by (rule sum_squares_le_square_sum) simp
    also have "\<dots> = (length targets)\<^sup>2"
      by (simp only: sum_count_list_set length_map)
    finally have "?n < 2 ^ 63" using that by simp
    then have "sint (task_score w targets) = int ?n"
      by (simp only: as_nat sint_of_nat_64)
    then show ?thesis by simp
  qed
  have empty: "task_score w [] = 0"
    by (simp add: task_score_def marks_count_def sum_of_squares_def)
  from word exact empty show ?thesis by blast
qed

lemma compute_marks_hello_hello: "compute_marks ''hello'' ''hello'' = 1023"
  by code_simp

lemma marks_count_hello:
  "marks_count ''hello'' [''world'', ''hello'', ''world''] = [(213, 2), (1023, 1)]"
  by (simp add: marks_count_def compute_marks_hello_world compute_marks_hello_hello)

theorem marks_count_partition_witness:
  "length [''world'', ''hello'', ''world''] < (2::nat) ^ 63
   \<and> (\<Sum>(mk, c)\<leftarrow>marks_count ''hello'' [''world'', ''hello'', ''world'']. sint c) = 3"
  using marks_count_partition [of "[''world'', ''hello'', ''world'']" "''hello''"]
  by simp

theorem task_score_sum_of_squares_witness:
  "(length [''world'', ''hello'', ''world''])\<^sup>2 < (2::nat) ^ 63
   \<and> sint (task_score ''hello'' [''world'', ''hello'', ''world'']) = 5"
proof -
  have h: "(length [''world'', ''hello'', ''world''])\<^sup>2 < (2::nat) ^ 63"
    by (simp add: power2_eq_square)
  have "sint (task_score ''hello'' [''world'', ''hello'', ''world''])
          = (\<Sum>mk\<in>set (map (compute_marks ''hello'') [''world'', ''hello'', ''world'']).
               (int (count_list (map (compute_marks ''hello'') [''world'', ''hello'', ''world'']) mk))\<^sup>2)"
    using task_score_sum_of_squares [of "''hello''" "[''world'', ''hello'', ''world'']"] h
    by blast
  also have "\<dots> = 5"
  proof -
    have cs: "map (compute_marks ''hello'') [''world'', ''hello'', ''world''] = [213, 1023, 213]"
      by (simp add: compute_marks_hello_world compute_marks_hello_hello)
    have st: "set [213, 1023, 213 :: Marks] = {213, 1023}"
      by auto
    show ?thesis unfolding cs st by simp
  qed
  finally show ?thesis using h by blast
qed

section \<open>Theorems about the thread pool\<close>

lemma task_score_hello_world: "task_score ''hello'' [''world''] = 1"
  by (simp add: task_score_def marks_count_def sum_of_squares_def compute_marks_hello_world)

text \<open>
  C3. The score table is claimed to hold the score of every guess whatever the
  schedule. With one thread, one guess and one target, the schedule in which the
  thread tests the queue before the main thread submits the task is a complete run:
  the thread has returned, the task is still in the queue, and the table holds 0 where
  the score is 1. The schedule in which the task is submitted first gives 1.
\<close>

theorem pool_drops_task_submitted_after_exit:
  "compute_sum_of_squares_ranks 1 [Step 0, Submit] [''hello''] [''world''] = Some [0]
   \<and> task_score ''hello'' [''world''] = 1
   \<and> compute_sum_of_squares_ranks 1 [Submit, Step 0, Step 0, Step 0] [''hello''] [''world'']
       = Some [1]"
  by (simp add: compute_sum_of_squares_ranks_def pool_init_def joined_def
      task_score_hello_world)

section \<open>Theorems about the top-k selection\<close>

lemma strict_weak_order_compare: "strict_weak_order (compare ranks)"
  unfolding strict_weak_order_def compare_def by auto

lemma mset_insert_by: "mset (insert_by cmp x ys) = add_mset x (mset ys)"
  by (induction ys) auto

lemma mset_insertion_sort: "mset (insertion_sort cmp xs) = mset xs"
  by (induction xs) (auto simp: mset_insert_by)

lemma set_insert_by: "set (insert_by cmp x ys) = insert x (set ys)"
  using mset_insert_by [of cmp x ys, THEN arg_cong [where f = set_mset]] by simp

lemma sorted_insert_by:
  assumes "strict_weak_order cmp" "sorted_wrt (\<lambda>a b. \<not> cmp b a) ys"
  shows "sorted_wrt (\<lambda>a b. \<not> cmp b a) (insert_by cmp x ys)"
  using assms(2)
proof (induction ys)
  case Nil
  show ?case by simp
next
  case (Cons y ys)
  from assms(1) have irr: "\<And>a. \<not> cmp a a"
    and tr: "\<And>a b c. cmp a b \<Longrightarrow> cmp b c \<Longrightarrow> cmp a c"
    unfolding strict_weak_order_def by blast+
  show ?case
  proof (cases "cmp x y")
    case True
    have "\<not> cmp z x" if "z \<in> set (y # ys)" for z
    proof
      assume "cmp z x"
      from this True have zy: "cmp z y" by (rule tr)
      from that Cons.prems have "z = y \<or> \<not> cmp z y" by auto
      with zy irr show False by auto
    qed
    with True Cons.prems show ?thesis by simp
  next
    case False
    with Cons show ?thesis by (auto simp: set_insert_by)
  qed
qed

lemma sorted_insertion_sort:
  "strict_weak_order cmp \<Longrightarrow> sorted_wrt (\<lambda>a b. \<not> cmp b a) (insertion_sort cmp xs)"
  by (induction xs) (auto intro: sorted_insert_by)

lemma sort_contract_insertion_sort: "sort_contract insertion_sort"
  unfolding sort_contract_def by (simp add: mset_insertion_sort sorted_insertion_sort)

lemma nth_element_contract_sorting: "nth_element_contract sorting_nth_element"
  unfolding nth_element_contract_def sorting_nth_element_def
proof (intro allI impI conjI)
  fix cmp :: "nat \<Rightarrow> nat \<Rightarrow> bool" and xs pos
  show "mset (insertion_sort cmp xs) = mset xs"
    by (rule mset_insertion_sort)
next
  fix cmp :: "nat \<Rightarrow> nat \<Rightarrow> bool" and xs :: "nat list" and pos i j
  assume swo: "strict_weak_order cmp" and ij: "i < pos" "pos \<le> j" "j < length xs"
  have len: "length (insertion_sort cmp xs) = length xs"
    using mset_insertion_sort [of cmp xs, THEN arg_cong [where f = size]] by simp
  from sorted_insertion_sort [OF swo, of xs] ij len
  show "\<not> cmp (insertion_sort cmp xs ! j) (insertion_sort cmp xs ! i)"
    by (simp add: sorted_wrt_iff_nth_less)
qed

lemma best_indices_run:
  fixes k :: "64 word"
  assumes ne: "nth_element_contract ne" and srt: "sort_contract srt"
    and len: "length ranks = length ws"
  defines "sc \<equiv> min (unat k) (length ws)"
  obtains ind best where
    "mset ind = mset [0..<length ws]"
    "\<And>i j. i < sc \<Longrightarrow> sc \<le> j \<Longrightarrow> j < length ws \<Longrightarrow> \<not> compare ranks (ind ! j) (ind ! i)"
    "mset best = mset (take sc ind)"
    "sorted_wrt (\<lambda>a b. \<not> compare ranks b a) best"
    "best_indices ne srt ws ranks k = Some best"
proof -
  let ?cmp = "compare ranks"
  let ?ind = "ne ?cmp [0..<length ws] sc"
  let ?best = "srt ?cmp (take sc ?ind)"
  have swo: "strict_weak_order ?cmp"
    by (rule strict_weak_order_compare)
  have sc_le: "sc \<le> length [0..<length ws]"
    by (simp add: sc_def)
  from ne swo sc_le have m: "mset ?ind = mset [0..<length ws]"
    and part: "\<And>i j. i < sc \<Longrightarrow> sc \<le> j \<Longrightarrow> j < length [0..<length ws]
        \<Longrightarrow> \<not> ?cmp (?ind ! j) (?ind ! i)"
    unfolding nth_element_contract_def by blast+
  from m have l: "length ?ind = length ws"
    using mset_eq_length by fastforce
  from srt swo have mb: "mset ?best = mset (take sc ?ind)"
    and sb: "sorted_wrt (\<lambda>a b. \<not> ?cmp b a) ?best"
    unfolding sort_contract_def by blast+
  have all: "list_all (\<lambda>i. i < length ranks) [0..<length ws]"
    by (simp add: len list_all_iff)
  have run: "best_indices ne srt ws ranks k = Some ?best"
    using all sc_le l
    by (simp add: best_indices_def Let_def flip: sc_def)
  from m part mb sb run show thesis
    by (intro that [of ?ind ?best]) simp_all
qed

lemma best_indices_facts:
  assumes ne: "nth_element_contract ne" and srt: "sort_contract srt"
    and len: "length ranks = length ws"
  shows "\<exists>best. best_indices ne srt ws ranks k = Some best
    \<and> length best = min (unat k) (length ws)
    \<and> distinct best \<and> set best \<subseteq> {0..<length ws}
    \<and> sorted (map (\<lambda>idx. sint (ranks ! idx)) best)
    \<and> (\<forall>j<length ws. j \<notin> set best \<longrightarrow>
          (\<forall>i\<in>set best. sint (ranks ! i) \<le> sint (ranks ! j)))
    \<and> (length ws \<le> unat k \<longrightarrow> set best = {0..<length ws})"
proof -
  define sc where "sc = min (unat k) (length ws)"
  obtain ind best where
    m: "mset ind = mset [0..<length ws]"
    and part: "\<And>i j. i < sc \<Longrightarrow> sc \<le> j \<Longrightarrow> j < length ws
        \<Longrightarrow> \<not> compare ranks (ind ! j) (ind ! i)"
    and mb: "mset best = mset (take sc ind)"
    and sb: "sorted_wrt (\<lambda>a b. \<not> compare ranks b a) best"
    and run: "best_indices ne srt ws ranks k = Some best"
    using best_indices_run [OF ne srt len, of k] unfolding sc_def by blast
  from m have li: "length ind = length ws"
    using mset_eq_length by fastforce
  from m have di: "distinct ind"
    by (metis distinct_upt mset_eq_imp_distinct_iff)
  from m have si: "set ind = {0..<length ws}"
    by (metis mset_eq_setD set_upt)
  have sc_le: "sc \<le> length ws"
    by (simp add: sc_def)
  from mb have lb: "length best = sc"
    using mset_eq_length [OF mb] li sc_le by simp
  from mb di have db: "distinct best"
    by (metis distinct_take mset_eq_imp_distinct_iff)
  from mb have sbest: "set best = set (take sc ind)"
    by (rule mset_eq_setD)
  then have sub: "set best \<subseteq> {0..<length ws}"
    using set_take_subset [of sc ind] si by auto
  have srt_scores: "sorted (map (\<lambda>idx. sint (ranks ! idx)) best)"
    using sb by (simp add: sorted_map compare_def not_less)
  have excl: "sint (ranks ! i) \<le> sint (ranks ! j)"
    if j: "j < length ws" "j \<notin> set best" and i: "i \<in> set best" for i j
  proof -
    from i sbest obtain q where q: "q < sc" "i = ind ! q"
      using li sc_le by (auto simp: in_set_conv_nth)
    from j(1) si obtain p where p: "p < length ws" "j = ind ! p"
      using li by (metis atLeastLessThan_iff in_set_conv_nth zero_le)
    have "sc \<le> p"
    proof (rule ccontr)
      assume "\<not> sc \<le> p"
      then have "p < sc" by simp
      then have "ind ! p \<in> set (take sc ind)"
        using li sc_le by (auto simp: in_set_conv_nth)
      with j(2) p(2) sbest show False by simp
    qed
    from part [OF q(1) this p(1)] show ?thesis
      by (simp add: compare_def p(2) q(2))
  qed
  have full: "set best = {0..<length ws}" if "length ws \<le> unat k"
  proof -
    from that have "sc = length ws" by (simp add: sc_def)
    with sbest li si show ?thesis by simp
  qed
  from run lb db sub srt_scores excl full show ?thesis
    unfolding sc_def by blast
qed

lemma print_best_of_best_indices:
  assumes "best_indices ne srt ws ranks k = Some best"
    and "set best \<subseteq> {0..<length ws}" and "length ranks = length ws"
  shows "print_best_sum_of_squares_ranks ne srt ws ranks k
           = Some (map (\<lambda>idx. (ws ! idx, ranks ! idx)) best)"
proof -
  from assms(2,3) have "list_all (\<lambda>idx. idx < length ws \<and> idx < length ranks) best"
    by (auto simp: list_all_iff)
  with assms(1) show ?thesis
    by (simp add: print_best_sum_of_squares_ranks_def)
qed

text \<open>
  C6. For a guess list of length \<open>n\<close> with its score table and every \<open>k\<close>, the
  selection returns exactly \<open>min k n\<close> entries, of distinct guesses, in ascending order
  of score; no guess outside the returned ones has a score below that of a returned
  one; \<open>k = 0\<close> gives the empty sequence, and \<open>k \<ge> n\<close> gives all \<open>n\<close> guesses.
\<close>

theorem topK_contract:
  assumes "nth_element_contract ne" and "sort_contract srt"
    and "length ranks = length ws"
  shows "\<exists>best. best_indices ne srt ws ranks k = Some best
    \<and> print_best_sum_of_squares_ranks ne srt ws ranks k
          = Some (map (\<lambda>idx. (ws ! idx, ranks ! idx)) best)
    \<and> length best = min (unat k) (length ws)
    \<and> distinct best \<and> set best \<subseteq> {0..<length ws}
    \<and> sorted (map (\<lambda>idx. sint (ranks ! idx)) best)
    \<and> (\<forall>j<length ws. j \<notin> set best \<longrightarrow>
          (\<forall>i\<in>set best. sint (ranks ! i) \<le> sint (ranks ! j)))
    \<and> (k = 0 \<longrightarrow> best = [])
    \<and> (length ws \<le> unat k \<longrightarrow> set best = {0..<length ws})"
proof -
  from best_indices_facts [OF assms, of k] obtain best where
    run: "best_indices ne srt ws ranks k = Some best"
    and lb: "length best = min (unat k) (length ws)"
    and db: "distinct best" and sub: "set best \<subseteq> {0..<length ws}"
    and so: "sorted (map (\<lambda>idx. sint (ranks ! idx)) best)"
    and excl: "\<forall>j<length ws. j \<notin> set best \<longrightarrow>
          (\<forall>i\<in>set best. sint (ranks ! i) \<le> sint (ranks ! j))"
    and full: "length ws \<le> unat k \<longrightarrow> set best = {0..<length ws}"
    by blast
  have out: "print_best_sum_of_squares_ranks ne srt ws ranks k
          = Some (map (\<lambda>idx. (ws ! idx, ranks ! idx)) best)"
    using run sub assms(3) by (rule print_best_of_best_indices)
  have zero: "k = 0 \<longrightarrow> best = []"
    using lb by auto
  from run out lb db sub so excl zero full show ?thesis
    by blast
qed

lemma best_indices_example:
  "best_indices sorting_nth_element insertion_sort [''crane'', ''slate'', ''adieu'']
     [5, 3, 9] 2 = Some [1, 0]"
  by (simp add: best_indices_def sorting_nth_element_def compare_def Let_def)

lemma print_best_example:
  "print_best_sum_of_squares_ranks sorting_nth_element insertion_sort
     [''crane'', ''slate'', ''adieu''] [5, 3, 9] 2 = Some [(''slate'', 3), (''crane'', 5)]"
  by (simp add: print_best_sum_of_squares_ranks_def best_indices_example)

theorem topK_contract_witness:
  "nth_element_contract sorting_nth_element \<and> sort_contract insertion_sort
   \<and> length [5, 3, 9 :: 64 word] = length [''crane'', ''slate'', ''adieu'']
   \<and> print_best_sum_of_squares_ranks sorting_nth_element insertion_sort
        [''crane'', ''slate'', ''adieu''] [5, 3, 9] 2 = Some [(''slate'', 3), (''crane'', 5)]
   \<and> (\<exists>best. best_indices sorting_nth_element insertion_sort
          [''crane'', ''slate'', ''adieu''] [5, 3, 9] 2 = Some best
        \<and> length best = 2 \<and> sorted (map (\<lambda>idx. sint ([5, 3, 9 :: 64 word] ! idx)) best))"
proof -
  have ne: "nth_element_contract sorting_nth_element"
    by (rule nth_element_contract_sorting)
  have srt: "sort_contract insertion_sort"
    by (rule sort_contract_insertion_sort)
  have len: "length [5, 3, 9 :: 64 word] = length [''crane'', ''slate'', ''adieu'']"
    by simp
  from topK_contract [OF ne srt len, of 2] obtain best where
    "best_indices sorting_nth_element insertion_sort
          [''crane'', ''slate'', ''adieu''] [5, 3, 9] 2 = Some best"
    "length best = min (unat (2 :: 64 word)) (length [''crane'', ''slate'', ''adieu''])"
    "sorted (map (\<lambda>idx. sint ([5, 3, 9 :: 64 word] ! idx)) best)"
    by blast
  then have "\<exists>best. best_indices sorting_nth_element insertion_sort
          [''crane'', ''slate'', ''adieu''] [5, 3, 9] 2 = Some best
        \<and> length best = 2 \<and> sorted (map (\<lambda>idx. sint ([5, 3, 9 :: 64 word] ! idx)) best)"
    by simp
  with ne srt len print_best_example show ?thesis
    by blast
qed

lemma unat_max_64: "unat (- 1 :: 64 word) = 18446744073709551615"
  by (simp add: unat_eq_nat_uint unsigned_minus_1_eq_mask mask_eq_exp_minus_1)

text \<open>
  C10. For every word list with its score table and every requested count, the
  maximal value \<^verbatim>\<open>(size_t)-1\<close> passed by \<^verbatim>\<open>main\<close> included, the count is first
  clamped to at most the number of words, no access leaves an array (the model returns
  a result), and the position handed to \<^verbatim>\<open>nth_element\<close> is within the index
  range; the maximal value is clamped to the number of words.
\<close>

theorem print_best_in_bounds:
  assumes "nth_element_contract ne" and "sort_contract srt"
    and "length ranks = length ws"
  shows "(\<exists>out. print_best_sum_of_squares_ranks ne srt ws ranks show_count = Some out)
    \<and> min (unat show_count) (length ws) \<le> length [0..<length ws]
    \<and> (length ws < 2 ^ 64 \<longrightarrow> min (unat (- 1 :: 64 word)) (length ws) = length ws)"
proof -
  from best_indices_facts [OF assms, of show_count] obtain best where
    run: "best_indices ne srt ws ranks show_count = Some best"
    and sub: "set best \<subseteq> {0..<length ws}"
    by blast
  from run sub assms(3)
  have "print_best_sum_of_squares_ranks ne srt ws ranks show_count
          = Some (map (\<lambda>idx. (ws ! idx, ranks ! idx)) best)"
    by (rule print_best_of_best_indices)
  then have defined: "\<exists>out. print_best_sum_of_squares_ranks ne srt ws ranks show_count = Some out"
    by blast
  have clamp: "min (unat show_count) (length ws) \<le> length [0..<length ws]"
    by simp
  have sentinel: "min (unat (- 1 :: 64 word)) (length ws) = length ws" if "length ws < 2 ^ 64"
    using that by (simp add: unat_max_64)
  from defined clamp sentinel show ?thesis
    by blast
qed

lemma print_best_all_example:
  "print_best_sum_of_squares_ranks sorting_nth_element insertion_sort
     [''crane'', ''slate'', ''adieu''] [5, 3, 9] (- 1)
     = Some [(''slate'', 3), (''crane'', 5), (''adieu'', 9)]"
  by (simp add: print_best_sum_of_squares_ranks_def best_indices_def sorting_nth_element_def
      compare_def Let_def unat_max_64)

theorem print_best_in_bounds_witness:
  "nth_element_contract sorting_nth_element \<and> sort_contract insertion_sort
   \<and> length [5, 3, 9 :: 64 word] = length [''crane'', ''slate'', ''adieu'']
   \<and> length [''crane'', ''slate'', ''adieu''] < (2 :: nat) ^ 64
   \<and> (\<exists>out. print_best_sum_of_squares_ranks sorting_nth_element insertion_sort
          [''crane'', ''slate'', ''adieu''] [5, 3, 9] (- 1) = Some out)
   \<and> print_best_sum_of_squares_ranks sorting_nth_element insertion_sort
        [''crane'', ''slate'', ''adieu''] [5, 3, 9] (- 1)
        = Some [(''slate'', 3), (''crane'', 5), (''adieu'', 9)]"
proof -
  have ne: "nth_element_contract sorting_nth_element"
    by (rule nth_element_contract_sorting)
  have srt: "sort_contract insertion_sort"
    by (rule sort_contract_insertion_sort)
  have len: "length [5, 3, 9 :: 64 word] = length [''crane'', ''slate'', ''adieu'']"
    by simp
  have small: "length [''crane'', ''slate'', ''adieu''] < (2 :: nat) ^ 64"
    by simp
  from print_best_in_bounds [OF ne srt len, of "- 1"]
  have "\<exists>out. print_best_sum_of_squares_ranks sorting_nth_element insertion_sort
          [''crane'', ''slate'', ''adieu''] [5, 3, 9] (- 1) = Some out"
    by blast
  with ne srt len small print_best_all_example show ?thesis
    by blast
qed

end
